theory Spec2Isabelle
  imports Complex_Main "HOL-Library.Log_Nat"
begin

section \<open>JavaScript numbers\<close>

text \<open>
  The generators of \<^verbatim>\<open>generators.ts\<close> compute with JavaScript numbers, that is with
  IEEE 754 binary64 values. A finite number is modelled by the rational it denotes, and
  every arithmetic operation of the source by the exact operation followed by \<open>rnd\<close>,
  rounding to the nearest binary64 value with ties to the even significand. The exponent
  is bounded below (subnormal numbers keep the spacing \<open>2 powi (- 1074)\<close>) and unbounded
  above: infinities, NaN and the sign of zero are not represented, so a seed is a finite
  number and a result is meaningful as long as no intermediate value reaches \<open>2 ^ 1024\<close>.

  \<open>ilog2 x\<close> is the binary exponent of a positive \<open>x\<close>, the integer \<open>e\<close> with
  \<open>2 powi e \<le> x < 2 powi (e + 1)\<close>, and \<open>ulp x\<close> the spacing of the binary64 values
  around \<open>x\<close>.
\<close>

definition ilog2 :: "rat \<Rightarrow> int" where
  "ilog2 x = (if 1 \<le> x then bitlen \<lfloor>x\<rfloor> - 1 else - bitlen (\<lceil>1 / x\<rceil> - 1))"

definition round_even :: "rat \<Rightarrow> int" where
  "round_even x =
     (let f = \<lfloor>x\<rfloor>; d = x - of_int f
      in if d < 1 / 2 then f else if 1 / 2 < d then f + 1
         else if even f then f else f + 1)"

definition ulp :: "rat \<Rightarrow> rat" where
  "ulp x = power_int 2 (max (ilog2 \<bar>x\<bar>) (- 1022) - 52)"

definition rnd :: "rat \<Rightarrow> rat" where
  "rnd x = (if x = 0 then 0 else of_int (round_even (x / ulp x)) * ulp x)"

definition js_mul :: "rat \<Rightarrow> rat \<Rightarrow> rat" where
  "js_mul x y = rnd (x * y)"

definition js_add :: "rat \<Rightarrow> rat \<Rightarrow> rat" where
  "js_add x y = rnd (x + y)"


definition js_div :: "rat \<Rightarrow> rat \<Rightarrow> rat" where
  "js_div x y = rnd (x / y)"

text \<open>
  The remainder operator \<^verbatim>\<open>%\<close> truncates the quotient towards zero, so its result has
  the sign of the dividend; it is exact (the remainder of two binary64 values is one).
\<close>

definition trunc :: "rat \<Rightarrow> int" where
  "trunc x = (if 0 \<le> x then \<lfloor>x\<rfloor> else \<lceil>x\<rceil>)"

definition js_rem :: "rat \<Rightarrow> rat \<Rightarrow> rat" where
  "js_rem x y = x - y * of_int (trunc (x / y))"

definition Math_floor :: "rat \<Rightarrow> int" where
  "Math_floor x = \<lfloor>x\<rfloor>"

text \<open>
  A value that \<^verbatim>\<open>Math.random()\<close> can return: a binary64 value in \<open>[0, 1)\<close>.
\<close>

definition is_draw :: "rat \<Rightarrow> bool" where
  "is_draw r \<longleftrightarrow> 0 \<le> r \<and> r < 1 \<and> rnd r = r"

section \<open>Strings\<close>

text \<open>
  \<open>toString\<close> is \<^verbatim>\<open>Number.prototype.toString\<close> on an integral number below \<open>10 ^ 21\<close> in
  magnitude: the decimal digits, after a minus sign for a negative number.
  \<open>fromCharCode\<close> is \<^verbatim>\<open>String.fromCharCode\<close>, which reduces its argument modulo \<open>2 ^ 16\<close>
  and returns the one code unit; the characters of HOL cover the codes below 256, which
  is where the letter codes computed here lie.
\<close>

definition digit_char :: "int \<Rightarrow> char" where
  "digit_char d = char_of (48 + d)"

function digits_of :: "int \<Rightarrow> string" where
  "digits_of n = (if n < 10 then [digit_char n] else digits_of (n div 10) @ [digit_char (n mod 10)])"
  by pat_completeness auto
termination
  by (relation "measure nat") auto

definition toString :: "int \<Rightarrow> string" where
  "toString n = (if n < 0 then CHR ''-'' # digits_of (- n) else digits_of n)"

definition fromCharCode :: "int \<Rightarrow> string" where
  "fromCharCode n = [char_of (n mod 65536)]"


definition is_digit :: "char \<Rightarrow> bool" where
  "is_digit c \<longleftrightarrow> 48 \<le> (of_char c :: int) \<and> (of_char c :: int) \<le> 57"

definition is_upper :: "char \<Rightarrow> bool" where
  "is_upper c \<longleftrightarrow> 65 \<le> (of_char c :: int) \<and> (of_char c :: int) \<le> 90"

section \<open>The random source\<close>

text \<open>
  Each generator starts with
  \<^verbatim>\<open>const random = seed !== undefined ? seededRandom(seed) : Math.random\<close>.
  \<open>seededRandom\<close> returns a closure over the mutable variable \<^verbatim>\<open>value\<close>; the closure is
  modelled by \<open>Seeded value\<close>, and a call returns the number emitted together with the
  closure in its new state. \<^verbatim>\<open>Math.random\<close> reads the randomness of the platform: the
  \<open>world\<close> is the sequence of numbers it is going to return, and a call takes the first.
  A seed is any finite number.
\<close>

type_synonym world = "nat \<Rightarrow> rat"

datatype random_fn = Seeded rat | Math_random

definition seededRandom :: "rat \<Rightarrow> random_fn" where
  "seededRandom seed = Seeded seed"

fun call :: "random_fn \<Rightarrow> world \<Rightarrow> rat \<times> random_fn \<times> world" where
  "call (Seeded v) w =
     (let v' = js_rem (js_add (js_mul v 9301) 49297) 233280
      in (js_div v' 233280, Seeded v', w))"
| "call Math_random w = (w 0, Math_random, \<lambda>i. w (Suc i))"

definition random_of :: "rat option \<Rightarrow> random_fn" where
  "random_of seed = (case seed of Some s \<Rightarrow> seededRandom s | None \<Rightarrow> Math_random)"

text \<open>The \<open>n\<close>-th number (from 0) that repeated calls of a random function emit.\<close>

fun emitted :: "random_fn \<Rightarrow> world \<Rightarrow> nat \<Rightarrow> rat" where
  "emitted f w 0 = fst (call f w)"
| "emitted f w (Suc n) = (case call f w of (r, f', w') \<Rightarrow> emitted f' w' n)"

section \<open>Scalar generators\<close>

definition generatePIN :: "rat option \<Rightarrow> world \<Rightarrow> string \<times> world" where
  "generatePIN seed w =
     (let random = random_of seed;
          (r1, random, w) = call random w;
          digits = toString (Math_floor (js_add (js_mul r1 900000000) 100000000));
          (r2, random, w) = call random w;
          letterCode = Math_floor (js_mul r2 26) + 65;
          letter = fromCharCode letterCode
      in (''P'' @ digits @ letter, w))"

definition generateTCC :: "rat option \<Rightarrow> world \<Rightarrow> string \<times> world" where
  "generateTCC seed w =
     (let random = random_of seed;
          (r, random, w) = call random w;
          digits = take 6 (toString (Math_floor (js_add (js_mul r 90000000) 10000000)))
      in (''TCC'' @ digits, w))"

definition generateEslip :: "rat option \<Rightarrow> world \<Rightarrow> string \<times> world" where
  "generateEslip seed w =
     (let random = random_of seed;
          (r, random, w) = call random w;
          digits = toString (Math_floor (js_add (js_mul r 900000000) 100000000))
      in (''ESLIP'' @ digits, w))"







section \<open>Dates\<close>










section \<open>Bulk generators\<close>

text \<open>
  \<^verbatim>\<open>Array.from({ length: count }, f)\<close> calls \<open>f\<close> once per index, in order, for
  \<open>max count 0\<close> indices. The \<^verbatim>\<open>Set\<close> of the unique branch keeps its members in
  insertion order, and \<^verbatim>\<open>Array.from\<close> lists them in that order: it is a list without
  repetition, \<open>set_add\<close> its \<^verbatim>\<open>add\<close> and \<open>length\<close> its \<^verbatim>\<open>size\<close>. The three bulk generators
  run the same loop, \<^verbatim>\<open>while (set.size < count) set.add(generate())\<close>, which \<open>fill\<close>
  models for any generator; the loop has no bound on its iterations, and \<open>None\<close> is a
  run that never leaves it. The count is an integer. Lists are unbounded: the limits of
  the platform on the length of an array and the size of a set are not modelled.
\<close>

fun array_from :: "nat \<Rightarrow> (world \<Rightarrow> 'a \<times> world) \<Rightarrow> world \<Rightarrow> 'a list \<times> world" where
  "array_from 0 f w = ([], w)"
| "array_from (Suc n) f w =
     (case f w of (x, w') \<Rightarrow> case array_from n f w' of (xs, w'') \<Rightarrow> (x # xs, w''))"

definition set_add :: "'a list \<Rightarrow> 'a \<Rightarrow> 'a list" where
  "set_add xs x = (if x \<in> set xs then xs else xs @ [x])"

partial_function (option) fill ::
    "(world \<Rightarrow> string \<times> world) \<Rightarrow> int \<Rightarrow> string list \<Rightarrow> world \<Rightarrow> (string list \<times> world) option" where
  [code]: "fill generate count members w =
     (if int (length members) < count
      then case generate w of (x, w') \<Rightarrow> fill generate count (set_add members x) w'
      else Some (members, w))"

definition generatePINs :: "int \<Rightarrow> bool \<Rightarrow> world \<Rightarrow> (string list \<times> world) option" where
  "generatePINs count unique w =
     (if \<not> unique then Some (array_from (nat count) (generatePIN None) w)
      else fill (generatePIN None) count [] w)"

definition generateTCCs :: "int \<Rightarrow> bool \<Rightarrow> world \<Rightarrow> (string list \<times> world) option" where
  "generateTCCs count unique w =
     (if \<not> unique then Some (array_from (nat count) (generateTCC None) w)
      else fill (generateTCC None) count [] w)"

definition generateEslips :: "int \<Rightarrow> bool \<Rightarrow> world \<Rightarrow> (string list \<times> world) option" where
  "generateEslips count unique w =
     (if \<not> unique then Some (array_from (nat count) (generateEslip None) w)
      else fill (generateEslip None) count [] w)"

section \<open>Validators\<close>

text \<open>
  The three patterns are anchored at both ends and have no flags:
  \<^verbatim>\<open>/^P\d{9}[A-Z]$/\<close>, \<^verbatim>\<open>/^TCC\d{6,8}$/\<close> and \<^verbatim>\<open>/^ESLIP\d{9,12}$/\<close>, where \<^verbatim>\<open>\d\<close> is
  an ASCII digit.
\<close>

definition validatePINFormat :: "string \<Rightarrow> bool" where
  "validatePINFormat pin \<longleftrightarrow>
     length pin = 11 \<and> take 1 pin = ''P'' \<and> list_all is_digit (take 9 (drop 1 pin))
     \<and> list_all is_upper (drop 10 pin)"

definition validateTCCFormat :: "string \<Rightarrow> bool" where
  "validateTCCFormat tcc \<longleftrightarrow>
     take 3 tcc = ''TCC'' \<and> 6 \<le> length (drop 3 tcc) \<and> length (drop 3 tcc) \<le> 8
     \<and> list_all is_digit (drop 3 tcc)"

definition validateEslipFormat :: "string \<Rightarrow> bool" where
  "validateEslipFormat eslip \<longleftrightarrow>
     take 5 eslip = ''ESLIP'' \<and> 9 \<le> length (drop 5 eslip) \<and> length (drop 5 eslip) \<le> 12
     \<and> list_all is_digit (drop 5 eslip)"

section \<open>Rounding to binary64\<close>

lemma bitlen_pow_bounds:
  assumes "0 < n"
  shows "1 \<le> bitlen n" and "(2::rat) ^ nat (bitlen n - 1) \<le> of_int n"
    and "(of_int n :: rat) + 1 \<le> 2 ^ nat (bitlen n)"
proof -
  show "1 \<le> bitlen n" using assms by (auto simp: bitlen_alt_def)
  from bitlen_bounds[OF assms]
  have a: "2 ^ nat (bitlen n - 1) \<le> n" and b: "n + 1 \<le> 2 ^ nat (bitlen n)"
    by simp_all
  from a have "(of_int (2 ^ nat (bitlen n - 1)) :: rat) \<le> of_int n"
    by (simp only: of_int_le_iff)
  then show "(2::rat) ^ nat (bitlen n - 1) \<le> of_int n" by simp
  from b have "(of_int (n + 1) :: rat) \<le> of_int (2 ^ nat (bitlen n))"
    by (simp only: of_int_le_iff)
  then show "(of_int n :: rat) + 1 \<le> 2 ^ nat (bitlen n)" by simp
qed

lemma ilog2_lower:
  assumes "0 < x"
  shows "power_int 2 (ilog2 x) \<le> x"
proof (cases "1 \<le> x")
  case True
  then have n: "0 < \<lfloor>x\<rfloor>" by simp
  have "(2::rat) ^ nat (bitlen \<lfloor>x\<rfloor> - 1) \<le> of_int \<lfloor>x\<rfloor>"
    by (rule bitlen_pow_bounds(2)[OF n])
  also have "\<dots> \<le> x" by simp
  finally show ?thesis using True bitlen_pow_bounds(1)[OF n]
    by (simp add: ilog2_def power_int_def)
next
  case False
  define y where "y = 1 / x"
  define m where "m = \<lceil>y\<rceil> - 1"
  have y: "1 < y" using False assms by (simp add: y_def)
  then have m: "0 < m" unfolding m_def by linarith
  have "y \<le> of_int m + 1" unfolding m_def by simp
  also have "\<dots> \<le> 2 ^ nat (bitlen m)" by (rule bitlen_pow_bounds(3)[OF m])
  finally have "1 / x \<le> 2 ^ nat (bitlen m)" by (simp add: y_def)
  then have "1 / 2 ^ nat (bitlen m) \<le> x" using assms
    by (simp add: field_simps)
  moreover have "ilog2 x = - bitlen m" using False by (simp add: ilog2_def m_def y_def)
  ultimately show ?thesis using bitlen_pow_bounds(1)[OF m]
    by (simp add: power_int_def field_simps)
qed

lemma ilog2_upper:
  assumes "0 < x"
  shows "x < power_int 2 (ilog2 x + 1)"
proof (cases "1 \<le> x")
  case True
  then have n: "0 < \<lfloor>x\<rfloor>" by simp
  have "x < of_int \<lfloor>x\<rfloor> + 1" by linarith
  also have "\<dots> \<le> 2 ^ nat (bitlen \<lfloor>x\<rfloor>)" by (rule bitlen_pow_bounds(3)[OF n])
  finally show ?thesis using True bitlen_pow_bounds(1)[OF n]
    by (simp add: ilog2_def power_int_def)
next
  case False
  define y where "y = 1 / x"
  define m where "m = \<lceil>y\<rceil> - 1"
  have y: "1 < y" using False assms by (simp add: y_def)
  then have m: "0 < m" unfolding m_def by linarith
  have e: "ilog2 x = - bitlen m" using False by (simp add: ilog2_def m_def y_def)
  have "(2::rat) ^ nat (bitlen m - 1) \<le> of_int m" by (rule bitlen_pow_bounds(2)[OF m])
  also have "\<dots> < y" unfolding m_def by linarith
  finally have "2 ^ nat (bitlen m - 1) < 1 / x" by (simp add: y_def)
  then have "x < 1 / 2 ^ nat (bitlen m - 1)" using assms
    by (simp add: field_simps)
  moreover have "power_int (2::rat) (ilog2 x + 1) = 1 / 2 ^ nat (bitlen m - 1)"
    using bitlen_pow_bounds(1)[OF m] unfolding e
    by (simp add: power_int_def field_simps nat_diff_distrib)
  ultimately show ?thesis by simp
qed

lemma power_int_two_less_iff: "power_int (2::rat) a < power_int 2 b \<longleftrightarrow> a < b"
proof
  assume less: "power_int (2::rat) a < power_int 2 b"
  show "a < b"
  proof (rule ccontr)
    assume "\<not> a < b"
    then have "b \<le> a" by simp
    then have "power_int (2::rat) b \<le> power_int 2 a" by (rule power_int_increasing) simp
    with less show False by simp
  qed
next
  assume "a < b"
  then show "power_int (2::rat) a < power_int 2 b" by (rule power_int_strict_increasing) simp
qed

lemma ilog2_unique:
  assumes "power_int 2 e \<le> x" and "x < power_int 2 (e + 1)"
  shows "ilog2 x = e"
proof -
  have "(0::rat) < power_int 2 e" by simp
  then have pos: "0 < x" using assms(1) by (rule less_le_trans)
  have "power_int (2::rat) e < power_int 2 (ilog2 x + 1)"
    using assms(1) ilog2_upper[OF pos] by simp
  then have a: "e < ilog2 x + 1" by (simp only: power_int_two_less_iff)
  have "power_int (2::rat) (ilog2 x) < power_int 2 (e + 1)"
    using assms(2) ilog2_lower[OF pos] by simp
  then have b: "ilog2 x < e + 1" by (simp only: power_int_two_less_iff)
  from a b show ?thesis by simp
qed

lemma ilog2_mono:
  assumes "0 < x" and "x \<le> y"
  shows "ilog2 x \<le> ilog2 y"
proof -
  have "power_int (2::rat) (ilog2 x) \<le> x" by (rule ilog2_lower[OF assms(1)])
  also have "\<dots> \<le> y" by fact
  also have "\<dots> < power_int 2 (ilog2 y + 1)" using assms by (intro ilog2_upper) simp
  finally have "ilog2 x < ilog2 y + 1" by (simp only: power_int_two_less_iff)
  then show ?thesis by simp
qed

lemma round_even_of_int: "round_even (of_int n) = n"
  by (simp add: round_even_def)

lemma round_even_bounds: "\<lfloor>x\<rfloor> \<le> round_even x" "round_even x \<le> \<lfloor>x\<rfloor> + 1"
  by (simp_all add: round_even_def Let_def)

lemma round_even_mono:
  assumes "x \<le> y"
  shows "round_even x \<le> round_even y"
proof (cases "\<lfloor>x\<rfloor> = \<lfloor>y\<rfloor>")
  case True
  then have "x - of_int \<lfloor>x\<rfloor> \<le> y - of_int \<lfloor>y\<rfloor>" using assms by simp
  then show ?thesis using True
    by (auto simp: round_even_def Let_def)
next
  case False
  then have "\<lfloor>x\<rfloor> < \<lfloor>y\<rfloor>" using floor_mono[OF assms] by simp
  then have "round_even x \<le> \<lfloor>y\<rfloor>" using round_even_bounds(2)[of x] by simp
  then show ?thesis using round_even_bounds(1)[of y] by simp
qed

lemma ulp_pos: "0 < ulp x"
  by (simp add: ulp_def)

lemma scaled_upper:
  assumes "0 < x"
  shows "x / ulp x < 2 ^ 53"
proof -
  define e where "e = max (ilog2 x) (- 1022)"
  have u: "ulp x = power_int 2 (e - 52)" using assms by (simp add: ulp_def e_def)
  have "x < power_int 2 (ilog2 x + 1)" by (rule ilog2_upper[OF assms])
  also have "\<dots> \<le> power_int 2 (e + 1)" by (rule power_int_increasing) (simp_all add: e_def)
  also have "\<dots> = 2 ^ 53 * power_int 2 (e - 52)"
    by (simp add: power_int_diff power_int_add)
  finally show ?thesis using ulp_pos[of x] unfolding u
    by (simp add: field_simps)
qed

lemma scaled_lower:
  assumes "0 < x" and "- 1022 \<le> ilog2 x"
  shows "2 ^ 52 \<le> x / ulp x"
proof -
  have u: "ulp x = power_int 2 (ilog2 x - 52)" using assms by (simp add: ulp_def max_def)
  have "2 ^ 52 * power_int 2 (ilog2 x - 52) = power_int (2::rat) (ilog2 x)"
    by (simp add: power_int_diff)
  also have "\<dots> \<le> x" by (rule ilog2_lower[OF assms(1)])
  finally show ?thesis using ulp_pos[of x] unfolding u
    by (simp add: field_simps)
qed

lemma rnd_upper:
  assumes "0 < x"
  shows "rnd x \<le> power_int 2 (max (ilog2 x) (- 1022) + 1)"
proof -
  have "round_even (x / ulp x) \<le> round_even (of_int (2 ^ 53))"
    by (rule round_even_mono) (use scaled_upper[OF assms] in simp)
  then have "round_even (x / ulp x) \<le> 2 ^ 53" by (simp only: round_even_of_int)
  then have "(of_int (round_even (x / ulp x)) :: rat) \<le> of_int (2 ^ 53)"
    by (simp only: of_int_le_iff)
  then have "of_int (round_even (x / ulp x)) * ulp x \<le> 2 ^ 53 * ulp x"
    using ulp_pos[of x] by simp
  also have "\<dots> = power_int 2 (max (ilog2 x) (- 1022) + 1)"
    using assms by (simp add: ulp_def power_int_diff power_int_add)
  finally show ?thesis using assms by (simp add: rnd_def)
qed

lemma rnd_lower:
  assumes "0 < x" and "- 1022 \<le> ilog2 x"
  shows "power_int 2 (ilog2 x) \<le> rnd x"
proof -
  have "round_even (of_int (2 ^ 52)) \<le> round_even (x / ulp x)"
    by (rule round_even_mono) (use scaled_lower[OF assms] in simp)
  then have "2 ^ 52 \<le> round_even (x / ulp x)" by (simp only: round_even_of_int)
  then have "(of_int (2 ^ 52) :: rat) \<le> of_int (round_even (x / ulp x))"
    by (simp only: of_int_le_iff)
  then have "2 ^ 52 * ulp x \<le> of_int (round_even (x / ulp x)) * ulp x"
    using ulp_pos[of x] by simp
  moreover have "2 ^ 52 * ulp x = power_int 2 (ilog2 x)"
    using assms by (simp add: ulp_def power_int_diff max_def)
  ultimately show ?thesis using assms by (simp add: rnd_def)
qed

lemma rnd_nonneg:
  assumes "0 \<le> x"
  shows "0 \<le> rnd x"
proof -
  have "round_even 0 \<le> round_even (x / ulp x)"
    by (rule round_even_mono) (use assms ulp_pos[of x] in simp)
  then have "0 \<le> round_even (x / ulp x)" by (simp add: round_even_def)
  then show ?thesis using ulp_pos[of x] by (simp add: rnd_def)
qed

text \<open>Rounding is monotone: the order of two exact results survives it.\<close>

lemma rnd_mono:
  assumes "0 \<le> x" and "x \<le> y"
  shows "rnd x \<le> rnd y"
proof (cases "x = 0")
  case True
  then show ?thesis using rnd_nonneg[of y] assms by (simp add: rnd_def)
next
  case False
  then have x: "0 < x" and y: "0 < y" using assms by simp_all
  define ex where "ex = max (ilog2 x) (- 1022)"
  define ey where "ey = max (ilog2 y) (- 1022)"
  have le: "ex \<le> ey" using ilog2_mono[OF x assms(2)] by (simp add: ex_def ey_def)
  show ?thesis
  proof (cases "ex = ey")
    case True
    then have u: "ulp x = ulp y" using x y by (simp add: ulp_def ex_def ey_def)
    have "round_even (x / ulp y) \<le> round_even (y / ulp y)"
      by (rule round_even_mono) (use assms ulp_pos[of y] in \<open>simp add: divide_right_mono\<close>)
    then have "(of_int (round_even (x / ulp y)) :: rat) \<le> of_int (round_even (y / ulp y))"
      by (simp only: of_int_le_iff)
    then show ?thesis using x y ulp_pos[of y] by (simp add: rnd_def u)
  next
    case False
    then have lt: "ex + 1 \<le> ey" using le by simp
    then have big: "- 1022 \<le> ilog2 y" and ey: "ey = ilog2 y" by (auto simp: ey_def ex_def)
    have "rnd x \<le> power_int 2 (ex + 1)" unfolding ex_def by (rule rnd_upper[OF x])
    also have "\<dots> \<le> power_int 2 ey" by (rule power_int_increasing) (use lt in simp_all)
    also have "\<dots> \<le> rnd y" unfolding ey by (rule rnd_lower[OF y big])
    finally show ?thesis .
  qed
qed

lemma rnd_exact:
  assumes "x = of_int k * ulp x"
  shows "rnd x = x"
proof -
  have "x / ulp x = of_int k" using assms ulp_pos[of x]
    by (metis less_irrefl nonzero_mult_div_cancel_right)
  then show ?thesis using assms by (simp add: rnd_def round_even_of_int)
qed

text \<open>The integers up to \<open>2 ^ 53\<close> are binary64 values, and rounding an integer gives one.\<close>

lemma rnd_of_int:
  assumes "0 \<le> n" and "n < 2 ^ 53"
  shows "rnd (of_int n) = of_int n"
proof (cases "n = 0")
  case True
  then show ?thesis by (simp add: rnd_def)
next
  case False
  then have pos: "0 < (of_int n :: rat)" using assms by simp
  define e where "e = ilog2 (of_int n)"
  have "power_int (2::rat) 0 \<le> of_int n" using False assms by simp
  also have "\<dots> < power_int 2 (e + 1)" unfolding e_def by (rule ilog2_upper[OF pos])
  finally have e0: "0 \<le> e" by (simp only: power_int_two_less_iff)
  have "power_int (2::rat) e \<le> of_int n" unfolding e_def by (rule ilog2_lower[OF pos])
  also have "\<dots> < of_int (2 ^ 53)" using assms(2) by (simp only: of_int_less_iff)
  also have "\<dots> = power_int 2 53" by simp
  finally have e52: "e \<le> 52" by (simp only: power_int_two_less_iff)
  have u: "ulp (of_int n) = 1 / 2 ^ nat (52 - e)"
    using e0 e52 assms
    by (simp add: ulp_def e_def[symmetric] max_def power_int_def field_simps)
  have "(of_int n :: rat) = of_int (n * 2 ^ nat (52 - e)) * ulp (of_int n)"
    unfolding u by simp
  then show ?thesis by (rule rnd_exact)
qed

lemma rnd_int_valued:
  assumes "0 \<le> n"
  shows "\<exists>m. 0 \<le> m \<and> rnd (of_int n) = of_int m"
proof (cases "n < 2 ^ 53")
  case True
  then show ?thesis using rnd_of_int[OF assms] assms by blast
next
  case False
  then have big: "(2::rat) ^ 53 \<le> of_int n"
    by (metis not_less of_int_le_iff of_int_numeral of_int_power)
  then have pos: "0 < (of_int n :: rat)" by (simp add: less_le_trans[OF _ big])
  define e where "e = ilog2 (of_int n)"
  have "power_int (2::rat) 53 \<le> of_int n" using big by simp
  also have "\<dots> < power_int 2 (e + 1)" unfolding e_def by (rule ilog2_upper[OF pos])
  finally have e53: "53 \<le> e" by (simp only: power_int_two_less_iff)
  have u: "ulp (of_int n) = of_int (2 ^ nat (e - 52))"
    using e53 assms by (simp add: ulp_def e_def[symmetric] max_def power_int_def)
  have nn: "0 \<le> rnd (of_int n)" by (rule rnd_nonneg) (use assms in simp)
  have "rnd (of_int n) = of_int (round_even (of_int n / ulp (of_int n)) * 2 ^ nat (e - 52))"
    using pos unfolding rnd_def u by simp
  then show ?thesis using nn by (metis of_int_0_le_iff)
qed

text \<open>The largest binary64 value below 1 is \<open>1 - 1 / 2 ^ 53\<close>.\<close>

lemma is_draw_le:
  assumes "is_draw r"
  shows "r \<le> 1 - 1 / 2 ^ 53"
proof (rule ccontr)
  assume "\<not> r \<le> 1 - 1 / 2 ^ 53"
  then have gt: "1 - 1 / 2 ^ 53 < r" by simp
  have lt: "r < 1" and ex: "rnd r = r" using assms by (simp_all add: is_draw_def)
  have "ilog2 r = - 1"
    by (rule ilog2_unique) (use gt lt in \<open>simp_all add: power_int_minus\<close>)
  then have u: "ulp r = 1 / 2 ^ 53" using gt
    by (simp add: ulp_def power_int_def field_simps)
  define k where "k = round_even (r / ulp r)"
  have "r = of_int k * (1 / 2 ^ 53)" using ex gt unfolding rnd_def k_def u
    by (auto split: if_splits)
  then have r: "r * 2 ^ 53 = of_int k" by simp
  from gt have "(2 ^ 53 - 1 :: rat) < r * 2 ^ 53" by (simp add: field_simps)
  then have "(of_int (2 ^ 53 - 1) :: rat) < of_int k" unfolding r by simp
  then have k1: "2 ^ 53 - 1 < k" by (simp only: of_int_less_iff)
  from lt have "r * 2 ^ 53 < 2 ^ 53" by simp
  then have "(of_int k :: rat) < of_int (2 ^ 53)" unfolding r by simp
  then have k2: "k < 2 ^ 53" by (simp only: of_int_less_iff)
  from k1 k2 show False by simp
qed

section \<open>Decimal digits\<close>

declare digits_of.simps [simp del]

lemma digit_char_is_digit: "0 \<le> d \<Longrightarrow> d < 10 \<Longrightarrow> is_digit (digit_char d)"
  by (simp add: is_digit_def digit_char_def)

lemma digits_of_digits: "0 \<le> n \<Longrightarrow> list_all is_digit (digits_of n)"
proof (induction n rule: digits_of.induct)
  case (1 n)
  show ?case
  proof (cases "n < 10")
    case True
    then show ?thesis using "1.prems"
      by (subst digits_of.simps) (simp add: digit_char_is_digit)
  next
    case False
    then have "0 \<le> n div 10" by simp
    with False have "list_all is_digit (digits_of (n div 10))" by (rule "1.IH")
    then show ?thesis using False
      by (subst digits_of.simps) (simp add: digit_char_is_digit)
  qed
qed

lemma length_digits_of:
  "10 ^ k \<le> n \<Longrightarrow> n < 10 ^ Suc k \<Longrightarrow> length (digits_of n) = Suc k"
proof (induction k arbitrary: n)
  case 0
  then show ?case by (subst digits_of.simps) simp
next
  case (Suc k)
  define p :: int where "p = 10 ^ k"
  have p: "0 < p" by (simp add: p_def)
  have n1: "10 * p \<le> n" and n2: "n < 100 * p" using Suc.prems by (simp_all add: p_def)
  have big: "\<not> n < 10" using n1 p by linarith
  have split: "n = 10 * (n div 10) + n mod 10" by simp
  have r: "0 \<le> n mod 10" "n mod 10 < 10" by simp_all
  have lo: "10 ^ k \<le> n div 10" using n1 split r unfolding p_def[symmetric] by linarith
  have "n div 10 < 10 * p" using n2 split r by linarith
  then have hi: "n div 10 < 10 ^ Suc k" by (simp add: p_def)
  have "length (digits_of (n div 10)) = Suc k" by (rule Suc.IH[OF lo hi])
  then show ?case using big by (subst digits_of.simps) simp
qed

lemma toString_digits:
  assumes "10 ^ k \<le> d" and "d < 10 ^ Suc k"
  shows "length (toString d) = Suc k" and "list_all is_digit (toString d)"
proof -
  have "(0::int) < 10 ^ k" by simp
  then have nonneg: "0 \<le> d" using assms(1) by linarith
  show "length (toString d) = Suc k"
    using nonneg length_digits_of[OF assms] by (simp add: toString_def)
  show "list_all is_digit (toString d)"
    using nonneg by (simp add: toString_def digits_of_digits)
qed

lemma fromCharCode_upper:
  assumes "65 \<le> c" and "c \<le> 90"
  shows "\<exists>l. fromCharCode c = [l] \<and> is_upper l"
proof -
  have "c mod 65536 = c" using assms by simp
  moreover have "c mod 256 = c" using assms by simp
  ultimately show ?thesis using assms
    by (simp add: fromCharCode_def is_upper_def)
qed

section \<open>The seeded random function on a non-negative integral state\<close>

lemma js_rem_of_int:
  assumes "0 \<le> m"
  shows "js_rem (of_int m) 233280 = of_int (m mod 233280)"
proof -
  have q: "(of_int m :: rat) / 233280 = of_int m / of_int 233280" by simp
  have "0 \<le> (of_int m :: rat) / 233280" using assms by simp
  then have "trunc (of_int m / 233280) = \<lfloor>(of_int m :: rat) / of_int 233280\<rfloor>"
    by (simp add: trunc_def)
  also have "\<dots> = m div 233280" by (rule floor_divide_of_int_eq)
  finally have "js_rem (of_int m) 233280 = of_int (m - 233280 * (m div 233280))"
    by (simp add: js_rem_def)
  then show ?thesis by (simp add: minus_mult_div_eq_mod)
qed

lemma seeded_step:
  assumes "0 \<le> k"
  shows "\<exists>k'. 0 \<le> k' \<and> k' < 233280 \<and>
           js_rem (js_add (js_mul (of_int k) 9301) 49297) 233280 = of_int k'"
proof -
  have "0 \<le> k * 9301" using assms by simp
  from rnd_int_valued[OF this] obtain m1 where m1: "0 \<le> m1" "js_mul (of_int k) 9301 = of_int m1"
    by (auto simp: js_mul_def)
  have "0 \<le> m1 + 49297" using m1(1) by simp
  from rnd_int_valued[OF this] obtain m2 where m2: "0 \<le> m2" "js_add (of_int m1) 49297 = of_int m2"
    by (auto simp: js_add_def)
  have "js_rem (js_add (js_mul (of_int k) 9301) 49297) 233280 = of_int (m2 mod 233280)"
    unfolding m1(2) m2(2) by (rule js_rem_of_int[OF m2(1)])
  moreover have "0 \<le> m2 mod 233280" "m2 mod 233280 < 233280" by simp_all
  ultimately show ?thesis by blast
qed

lemma rnd_below_one: "rnd (1 - 1 / 2 ^ 18) = 1 - 1 / 2 ^ 18"
  by code_simp

lemma js_div_unit:
  assumes "0 \<le> k" and "k < 233280"
  shows "0 \<le> js_div (of_int k) 233280" and "js_div (of_int k) 233280 \<le> 1 - 1 / 2 ^ 53"
proof -
  have nonneg: "0 \<le> (of_int k :: rat) / 233280" using assms(1) by simp
  then show "0 \<le> js_div (of_int k) 233280" unfolding js_div_def by (rule rnd_nonneg)
  have "k \<le> 233279" using assms(2) by simp
  then have "(of_int k :: rat) \<le> of_int 233279" by (simp only: of_int_le_iff)
  then have "(of_int k :: rat) / 233280 \<le> 1 - 1 / 2 ^ 18" by simp
  from rnd_mono[OF nonneg this] have "js_div (of_int k) 233280 \<le> 1 - 1 / 2 ^ 18"
    by (simp only: js_div_def rnd_below_one)
  then show "js_div (of_int k) 233280 \<le> 1 - 1 / 2 ^ 53" by simp
qed

text \<open>
  From a non-negative integral state, a call leaves a state of the same kind and emits a
  number in \<open>[0, 1)\<close>.
\<close>

lemma call_seeded:
  assumes "0 \<le> k"
  shows "\<exists>r k'. call (Seeded (of_int k)) w = (r, Seeded (of_int k'), w)
           \<and> 0 \<le> k' \<and> 0 \<le> r \<and> r \<le> 1 - 1 / 2 ^ 53"
proof -
  from seeded_step[OF assms] obtain k' where k': "0 \<le> k'" "k' < 233280"
    "js_rem (js_add (js_mul (of_int k) 9301) 49297) 233280 = of_int k'" by blast
  have "call (Seeded (of_int k)) w = (js_div (of_int k') 233280, Seeded (of_int k'), w)"
    by (simp add: k'(3) Let_def)
  then show ?thesis using js_div_unit[OF k'(1,2)] k'(1) by blast
qed

lemma emitted_seeded:
  assumes "0 \<le> k"
  shows "0 \<le> emitted (Seeded (of_int k)) w n \<and> emitted (Seeded (of_int k)) w n \<le> 1 - 1 / 2 ^ 53"
  using assms
proof (induction n arbitrary: k)
  case 0
  from call_seeded[OF 0, of w] obtain r k' where
    "call (Seeded (of_int k)) w = (r, Seeded (of_int k'), w)" "0 \<le> r" "r \<le> 1 - 1 / 2 ^ 53"
    by blast
  then show ?case by (simp del: call.simps)
next
  case (Suc n)
  from call_seeded[OF Suc.prems, of w] obtain r k' where
    c: "call (Seeded (of_int k)) w = (r, Seeded (of_int k'), w)" and k': "0 \<le> k'"
    by blast
  show ?case using Suc.IH[OF k'] by (simp add: c del: call.simps)
qed

section \<open>The shape of the generated strings\<close>

lemma floor_affine_mono:
  assumes "0 \<le> r" and "r \<le> r'" and "0 \<le> a" and "0 \<le> b"
  shows "Math_floor (js_add (js_mul r a) b) \<le> Math_floor (js_add (js_mul r' a) b)"
proof -
  have nonneg: "0 \<le> r * a" using assms by simp
  have "r * a \<le> r' * a" using assms by (simp add: mult_right_mono)
  with nonneg have m: "js_mul r a \<le> js_mul r' a" unfolding js_mul_def by (rule rnd_mono)
  have "0 \<le> js_mul r a" unfolding js_mul_def using nonneg by (rule rnd_nonneg)
  then have "0 \<le> js_mul r a + b" using assms(4) by simp
  moreover have "js_mul r a + b \<le> js_mul r' a + b" using m by simp
  ultimately have "js_add (js_mul r a) b \<le> js_add (js_mul r' a) b"
    unfolding js_add_def by (rule rnd_mono)
  then show ?thesis unfolding Math_floor_def by (rule floor_mono)
qed

lemma floor_scale_mono:
  assumes "0 \<le> r" and "r \<le> r'" and "0 \<le> a"
  shows "Math_floor (js_mul r a) \<le> Math_floor (js_mul r' a)"
proof -
  have nonneg: "0 \<le> r * a" using assms by simp
  have "r * a \<le> r' * a" using assms by (simp add: mult_right_mono)
  with nonneg have "js_mul r a \<le> js_mul r' a" unfolding js_mul_def by (rule rnd_mono)
  then show ?thesis unfolding Math_floor_def by (rule floor_mono)
qed

lemma nine_digits_least: "Math_floor (js_add (js_mul 0 900000000) 100000000) = 100000000"
  by code_simp

lemma nine_digits_greatest:
  "Math_floor (js_add (js_mul (1 - 1 / 2 ^ 53) 900000000) 100000000) = 999999999"
  by code_simp

lemma eight_digits_least: "Math_floor (js_add (js_mul 0 90000000) 10000000) = 10000000"
  by code_simp

lemma eight_digits_greatest:
  "Math_floor (js_add (js_mul (1 - 1 / 2 ^ 53) 90000000) 10000000) = 99999999"
  by code_simp

lemma letter_least: "Math_floor (js_mul 0 26) = 0"
  by code_simp

lemma letter_greatest: "Math_floor (js_mul (1 - 1 / 2 ^ 53) 26) = 25"
  by code_simp



lemma nine_digits:
  assumes "0 \<le> r" and "r \<le> 1 - 1 / 2 ^ 53"
  shows "length (toString (Math_floor (js_add (js_mul r 900000000) 100000000))) = 9"
    and "list_all is_digit (toString (Math_floor (js_add (js_mul r 900000000) 100000000)))"
proof -
  define d where "d = Math_floor (js_add (js_mul r 900000000) 100000000)"
  have "100000000 \<le> d"
    using floor_affine_mono[of 0 r 900000000 100000000] assms(1)
    by (simp add: d_def nine_digits_least)
  then have lo: "10 ^ 8 \<le> d" by simp
  have "d \<le> Math_floor (js_add (js_mul (1 - 1 / 2 ^ 53) 900000000) 100000000)"
    unfolding d_def by (rule floor_affine_mono[OF assms]) simp_all
  then have "d \<le> 999999999" by (simp only: nine_digits_greatest)
  then have hi: "d < 10 ^ Suc 8" by simp
  show "length (toString (Math_floor (js_add (js_mul r 900000000) 100000000))) = 9"
    using toString_digits(1)[OF lo hi] by (simp add: d_def)
  show "list_all is_digit (toString (Math_floor (js_add (js_mul r 900000000) 100000000)))"
    using toString_digits(2)[OF lo hi] by (simp add: d_def)
qed

lemma eight_digits:
  assumes "0 \<le> r" and "r \<le> 1 - 1 / 2 ^ 53"
  shows "length (toString (Math_floor (js_add (js_mul r 90000000) 10000000))) = 8"
    and "list_all is_digit (toString (Math_floor (js_add (js_mul r 90000000) 10000000)))"
proof -
  define d where "d = Math_floor (js_add (js_mul r 90000000) 10000000)"
  have "10000000 \<le> d"
    using floor_affine_mono[of 0 r 90000000 10000000] assms(1)
    by (simp add: d_def eight_digits_least)
  then have lo: "10 ^ 7 \<le> d" by simp
  have "d \<le> Math_floor (js_add (js_mul (1 - 1 / 2 ^ 53) 90000000) 10000000)"
    unfolding d_def by (rule floor_affine_mono[OF assms]) simp_all
  then have "d \<le> 99999999" by (simp only: eight_digits_greatest)
  then have hi: "d < 10 ^ Suc 7" by simp
  show "length (toString (Math_floor (js_add (js_mul r 90000000) 10000000))) = 8"
    using toString_digits(1)[OF lo hi] by (simp add: d_def)
  show "list_all is_digit (toString (Math_floor (js_add (js_mul r 90000000) 10000000)))"
    using toString_digits(2)[OF lo hi] by (simp add: d_def)
qed

lemma letter_code:
  assumes "0 \<le> r" and "r \<le> 1 - 1 / 2 ^ 53"
  shows "65 \<le> Math_floor (js_mul r 26) + 65" and "Math_floor (js_mul r 26) + 65 \<le> 90"
proof -
  have "Math_floor (js_mul 0 26) \<le> Math_floor (js_mul r 26)"
    by (rule floor_scale_mono) (use assms(1) in simp_all)
  then have "0 \<le> Math_floor (js_mul r 26)" by (simp only: letter_least)
  then show "65 \<le> Math_floor (js_mul r 26) + 65" by simp
  have "Math_floor (js_mul r 26) \<le> Math_floor (js_mul (1 - 1 / 2 ^ 53) 26)"
    by (rule floor_scale_mono[OF assms]) simp
  then have "Math_floor (js_mul r 26) \<le> 25" by (simp only: letter_greatest)
  then show "Math_floor (js_mul r 26) + 65 \<le> 90" by simp
qed


lemma pin_shape:
  assumes "0 \<le> r1" and "r1 \<le> 1 - 1 / 2 ^ 53" and "0 \<le> r2" and "r2 \<le> 1 - 1 / 2 ^ 53"
  shows "validatePINFormat
           (''P'' @ toString (Math_floor (js_add (js_mul r1 900000000) 100000000))
              @ fromCharCode (Math_floor (js_mul r2 26) + 65))"
proof -
  from fromCharCode_upper[OF letter_code[OF assms(3,4)]]
  obtain l where l: "fromCharCode (Math_floor (js_mul r2 26) + 65) = [l]" "is_upper l" by blast
  show ?thesis using nine_digits[OF assms(1,2)] l
    by (simp add: validatePINFormat_def)
qed

lemma tcc_shape:
  assumes "0 \<le> r" and "r \<le> 1 - 1 / 2 ^ 53"
  shows "length (take 6 (toString (Math_floor (js_add (js_mul r 90000000) 10000000)))) = 6"
    and "list_all is_digit (take 6 (toString (Math_floor (js_add (js_mul r 90000000) 10000000))))"
proof -
  define ds where "ds = toString (Math_floor (js_add (js_mul r 90000000) 10000000))"
  have len: "length ds = 8" and dig: "list_all is_digit ds"
    using eight_digits[OF assms] by (simp_all add: ds_def)
  show "length (take 6 (toString (Math_floor (js_add (js_mul r 90000000) 10000000)))) = 6"
    using len by (simp add: ds_def)
  have "set (take 6 ds) \<subseteq> set ds" by (rule set_take_subset)
  then have "list_all is_digit (take 6 ds)" using dig by (auto simp: list_all_iff)
  then show "list_all is_digit (take 6 (toString (Math_floor (js_add (js_mul r 90000000) 10000000))))"
    by (simp add: ds_def)
qed

text \<open>
  With a seed, a generator reads the numbers that the closure emits, in order, and leaves
  the platform randomness alone.
\<close>

lemma generatePIN_seeded:
  "generatePIN (Some s) w =
     (''P'' @ toString (Math_floor (js_add (js_mul (emitted (seededRandom s) w 0) 900000000) 100000000))
        @ fromCharCode (Math_floor (js_mul (emitted (seededRandom s) w 1) 26) + 65), w)"
  by (simp add: generatePIN_def random_of_def seededRandom_def Let_def)

lemma generateTCC_seeded:
  "generateTCC (Some s) w =
     (''TCC'' @ take 6 (toString (Math_floor (js_add (js_mul (emitted (seededRandom s) w 0) 90000000) 10000000))), w)"
  by (simp add: generateTCC_def random_of_def seededRandom_def Let_def)

lemma generateEslip_seeded:
  "generateEslip (Some s) w =
     (''ESLIP'' @ toString (Math_floor (js_add (js_mul (emitted (seededRandom s) w 0) 900000000) 100000000)), w)"
  by (simp add: generateEslip_def random_of_def seededRandom_def Let_def)


lemma generatePIN_valid:
  assumes "0 \<le> k"
  shows "validatePINFormat (fst (generatePIN (Some (of_int k)) w))"
proof -
  from emitted_seeded[OF assms, of w 0] emitted_seeded[OF assms, of w 1]
  show ?thesis unfolding generatePIN_seeded seededRandom_def fst_conv
    by (intro pin_shape) simp_all
qed

lemma generateTCC_valid:
  assumes "0 \<le> k"
  shows "\<exists>digits. fst (generateTCC (Some (of_int k)) w) = ''TCC'' @ digits
           \<and> length digits = 6 \<and> list_all is_digit digits"
    and "validateTCCFormat (fst (generateTCC (Some (of_int k)) w))"
proof -
  from emitted_seeded[OF assms, of w 0]
  have r: "0 \<le> emitted (Seeded (of_int k)) w 0" "emitted (Seeded (of_int k)) w 0 \<le> 1 - 1 / 2 ^ 53"
    by simp_all
  show "\<exists>digits. fst (generateTCC (Some (of_int k)) w) = ''TCC'' @ digits
           \<and> length digits = 6 \<and> list_all is_digit digits"
    unfolding generateTCC_seeded seededRandom_def fst_conv using tcc_shape[OF r] by blast
  show "validateTCCFormat (fst (generateTCC (Some (of_int k)) w))"
    unfolding generateTCC_seeded seededRandom_def fst_conv using tcc_shape[OF r]
    by (simp add: validateTCCFormat_def)
qed

lemma generateEslip_valid:
  assumes "0 \<le> k"
  shows "\<exists>digits. fst (generateEslip (Some (of_int k)) w) = ''ESLIP'' @ digits
           \<and> length digits = 9 \<and> list_all is_digit digits"
    and "validateEslipFormat (fst (generateEslip (Some (of_int k)) w))"
proof -
  from emitted_seeded[OF assms, of w 0]
  have r: "0 \<le> emitted (Seeded (of_int k)) w 0" "emitted (Seeded (of_int k)) w 0 \<le> 1 - 1 / 2 ^ 53"
    by simp_all
  show "\<exists>digits. fst (generateEslip (Some (of_int k)) w) = ''ESLIP'' @ digits
           \<and> length digits = 9 \<and> list_all is_digit digits"
    unfolding generateEslip_seeded seededRandom_def fst_conv using nine_digits[OF r] by blast
  show "validateEslipFormat (fst (generateEslip (Some (of_int k)) w))"
    unfolding generateEslip_seeded seededRandom_def fst_conv using nine_digits[OF r]
    by (simp add: validateEslipFormat_def)
qed

text \<open>
  Without a seed the generators read the platform randomness, two numbers for a PIN and
  one for a TCC or an e-slip, and the validators accept what they return.
\<close>

lemma generatePIN_platform_valid:
  assumes "is_draw (w 0)" and "is_draw (w 1)"
  shows "validatePINFormat (fst (generatePIN None w))"
proof -
  have "0 \<le> w 0" "w 0 \<le> 1 - 1 / 2 ^ 53" "0 \<le> w 1" "w 1 \<le> 1 - 1 / 2 ^ 53"
    using assms is_draw_le[OF assms(1)] is_draw_le[OF assms(2)] by (simp_all add: is_draw_def)
  from pin_shape[OF this] show ?thesis
    by (simp add: generatePIN_def random_of_def)
qed

lemma generateTCC_platform_valid:
  assumes "is_draw (w 0)"
  shows "validateTCCFormat (fst (generateTCC None w))"
proof -
  have "0 \<le> w 0" "w 0 \<le> 1 - 1 / 2 ^ 53"
    using assms is_draw_le[OF assms] by (simp_all add: is_draw_def)
  from tcc_shape[OF this] show ?thesis
    by (simp add: generateTCC_def random_of_def validateTCCFormat_def)
qed

lemma generateEslip_platform_valid:
  assumes "is_draw (w 0)"
  shows "validateEslipFormat (fst (generateEslip None w))"
proof -
  have "0 \<le> w 0" "w 0 \<le> 1 - 1 / 2 ^ 53"
    using assms is_draw_le[OF assms] by (simp_all add: is_draw_def)
  from nine_digits[OF this] show ?thesis
    by (simp add: generateEslip_def random_of_def validateEslipFormat_def)
qed

section \<open>Seeded generators: validity, range and shape\<close>

lemma pin_of_minus_6: "fst (generatePIN (Some (- 6)) w) = ''P748881179''"
  by code_simp

lemma eslip_of_minus_6: "fst (generateEslip (Some (- 6)) w) = ''ESLIP74888117''"
  by code_simp

lemma tcc_of_minus_20: "fst (generateTCC (Some (- 20)) w) = ''TCC-42748''"
  by code_simp

text \<open>
  C1. Claim: for every seed, the generated value satisfies its paired validator.
  The remainder in \<open>seededRandom\<close> keeps the sign of its dividend, so a negative seed
  makes the closure emit negative numbers. With the seed \<open>- 6\<close> the first two numbers
  are about \<open>- 0.0279\<close> and \<open>- 0.306\<close>: \<open>generatePIN\<close> returns an eight-digit block and
  the character of code \<open>57\<close> in place of a letter, a string that \<open>validatePINFormat\<close>
  rejects; \<open>validateEslipFormat\<close> rejects the e-slip of the same seed, and
  \<open>validateTCCFormat\<close> the TCC of the seed \<open>- 20\<close>.
  (For the seeds that are non-negative integers the three validators accept:
  \<open>generatePIN_valid\<close>, \<open>generateTCC_valid\<close>, \<open>generateEslip_valid\<close>.)
\<close>

theorem generated_value_rejected_negative_seed:
  "fst (generatePIN (Some (- 6)) w) = ''P748881179''
   \<and> \<not> validatePINFormat (fst (generatePIN (Some (- 6)) w))
   \<and> \<not> validateEslipFormat (fst (generateEslip (Some (- 6)) w))
   \<and> \<not> validateTCCFormat (fst (generateTCC (Some (- 20)) w))"
proof -
  have "\<not> validatePINFormat ''P748881179''" by code_simp
  moreover have "\<not> validateEslipFormat ''ESLIP74888117''" by code_simp
  moreover have "\<not> validateTCCFormat ''TCC-42748''" by code_simp
  ultimately show ?thesis
    by (simp only: pin_of_minus_6 eslip_of_minus_6 tcc_of_minus_20) simp
qed

text \<open>
  C2. Claim: for every seed, every number that the seeded random function emits lies
  in \<open>[0, 1)\<close>. With the seed \<open>- 6\<close> the state after the first call is
  \<open>(- 6 * 9301 + 49297) % 233280 = - 6509\<close> and the number emitted is the binary64
  value nearest to \<open>- 6509 / 233280\<close>, which is negative; the second is negative too.
  (For the seeds that are non-negative integers every number emitted lies in \<open>[0, 1)\<close>:
  \<open>seededRandom_unit_interval\<close>.)
\<close>

theorem seededRandom_emits_negative:
  "emitted (seededRandom (- 6)) w 0 = - (2010557611423495 / 72057594037927936)
   \<and> emitted (seededRandom (- 6)) w 0 < 0
   \<and> emitted (seededRandom (- 6)) w 1 < 0"
  by code_simp

text \<open>
  C3. Claim: for every seed, \<open>generateTCC\<close> returns \<^verbatim>\<open>TCC\<close> and exactly 6 digits, and
  \<open>generateEslip\<close> returns \<^verbatim>\<open>ESLIP\<close> and exactly 9 digits. With the seed \<open>- 6\<close> the
  e-slip has 8 digits, and with the seed \<open>- 20\<close> the number drawn for the TCC is
  \<open>- 42748071\<close>, whose first six characters begin with the minus sign.
  (For the seeds that are non-negative integers the claim holds:
  \<open>generateTCC_valid\<close>, \<open>generateEslip_valid\<close>.)
\<close>

theorem generated_digits_negative_seed:
  "fst (generateEslip (Some (- 6)) w) = ''ESLIP74888117''
   \<and> length (drop 5 (fst (generateEslip (Some (- 6)) w))) = 8
   \<and> fst (generateTCC (Some (- 20)) w) = ''TCC-42748''
   \<and> \<not> list_all is_digit (drop 3 (fst (generateTCC (Some (- 20)) w)))"
proof -
  have "\<not> list_all is_digit (drop 3 ''TCC-42748'')" by code_simp
  then show ?thesis
    by (simp only: eslip_of_minus_6 tcc_of_minus_20) simp
qed

section \<open>Seeded generators: determinism\<close>

text \<open>
  C8. For every seed, two calls of the same seeded generator return equal results.
  A call with a seed builds its own closure, reads the first two (\<open>generatePIN\<close>) or
  the first (\<open>generateTCC\<close>, \<open>generateEslip\<close>) of the numbers it emits, in this order,
  and neither reads nor advances the platform randomness: the second of two successive
  calls returns what the first returned, whatever the world.
\<close>

theorem seeded_generator_deterministic:
  "fst (generatePIN (Some s) (snd (generatePIN (Some s) w))) = fst (generatePIN (Some s) w)
   \<and> fst (generateTCC (Some s) (snd (generateTCC (Some s) w))) = fst (generateTCC (Some s) w)
   \<and> fst (generateEslip (Some s) (snd (generateEslip (Some s) w))) = fst (generateEslip (Some s) w)
   \<and> fst (generatePIN (Some s) w') = fst (generatePIN (Some s) w)
   \<and> fst (generateTCC (Some s) w') = fst (generateTCC (Some s) w)
   \<and> fst (generateEslip (Some s) w') = fst (generateEslip (Some s) w)
   \<and> snd (generatePIN (Some s) w) = w
   \<and> snd (generateTCC (Some s) w) = w
   \<and> snd (generateEslip (Some s) w) = w
   \<and> fst (generatePIN (Some s) w) =
       ''P'' @ toString (Math_floor (js_add (js_mul (emitted (seededRandom s) w 0) 900000000) 100000000))
          @ fromCharCode (Math_floor (js_mul (emitted (seededRandom s) w 1) 26) + 65)
   \<and> fst (generateTCC (Some s) w) =
       ''TCC'' @ take 6 (toString (Math_floor (js_add (js_mul (emitted (seededRandom s) w 0) 90000000) 10000000)))
   \<and> fst (generateEslip (Some s) w) =
       ''ESLIP'' @ toString (Math_floor (js_add (js_mul (emitted (seededRandom s) w 0) 900000000) 100000000))"
proof -
  have same: "fst (generatePIN (Some s) (snd (generatePIN (Some s) w))) = fst (generatePIN (Some s) w)
   \<and> fst (generateTCC (Some s) (snd (generateTCC (Some s) w))) = fst (generateTCC (Some s) w)
   \<and> fst (generateEslip (Some s) (snd (generateEslip (Some s) w))) = fst (generateEslip (Some s) w)
   \<and> fst (generatePIN (Some s) w') = fst (generatePIN (Some s) w)
   \<and> fst (generateTCC (Some s) w') = fst (generateTCC (Some s) w)
   \<and> fst (generateEslip (Some s) w') = fst (generateEslip (Some s) w)
   \<and> snd (generatePIN (Some s) w) = w
   \<and> snd (generateTCC (Some s) w) = w
   \<and> snd (generateEslip (Some s) w) = w"
    by (simp add: generatePIN_def generateTCC_def generateEslip_def random_of_def
        seededRandom_def Let_def)
  have draws: "fst (generatePIN (Some s) w) =
       ''P'' @ toString (Math_floor (js_add (js_mul (emitted (seededRandom s) w 0) 900000000) 100000000))
          @ fromCharCode (Math_floor (js_mul (emitted (seededRandom s) w 1) 26) + 65)
   \<and> fst (generateTCC (Some s) w) =
       ''TCC'' @ take 6 (toString (Math_floor (js_add (js_mul (emitted (seededRandom s) w 0) 90000000) 10000000)))
   \<and> fst (generateEslip (Some s) w) =
       ''ESLIP'' @ toString (Math_floor (js_add (js_mul (emitted (seededRandom s) w 0) 900000000) 100000000))"
    by (simp only: generatePIN_seeded generateTCC_seeded generateEslip_seeded fst_conv)
  from same draws show ?thesis by (simp only: simp_thms)
qed

text \<open>
  C9. For every seed, the characters of \<open>generatePIN\<close> between the leading \<^verbatim>\<open>P\<close> and
  the last character are the characters of \<open>generateEslip\<close> after \<^verbatim>\<open>ESLIP\<close>: both are
  the decimal digits of \<open>floor (r * 900000000 + 100000000)\<close> for the first number \<open>r\<close>
  that the closure emits.
\<close>

theorem pin_block_is_eslip_block:
  "butlast (tl (fst (generatePIN (Some s) w))) = drop 5 (fst (generateEslip (Some s) w))
   \<and> drop 5 (fst (generateEslip (Some s) w)) =
       toString (Math_floor (js_add (js_mul (emitted (seededRandom s) w 0) 900000000) 100000000))"
  by (simp add: generatePIN_seeded generateEslip_seeded fromCharCode_def)

section \<open>Bulk generators: length and uniqueness\<close>

lemma array_from_length: "length (fst (array_from n f w)) = n"
proof (induction n arbitrary: w)
  case 0
  show ?case by simp
next
  case (Suc n)
  obtain x w1 where f: "f w = (x, w1)" by (cases "f w")
  obtain xs w2 where a: "array_from n f w1 = (xs, w2)" by (cases "array_from n f w1")
  from Suc.IH[of w1] a have "length xs = n" by simp
  then show ?case by (simp add: f a)
qed

lemma set_add_distinct: "distinct xs \<Longrightarrow> distinct (set_add xs x)"
  by (simp add: set_add_def)

lemma set_add_length: "length xs \<le> length (set_add xs x) \<and> length (set_add xs x) \<le> Suc (length xs)"
  by (simp add: set_add_def)

text \<open>
  The loop invariant: the members are distinct and no more than \<open>count\<close>. When the loop
  is left, the size is not below \<open>count\<close> either.
\<close>

lemma fill_result:
  assumes "fill generate count members w = Some (res, w')"
    and "distinct members" and "int (length members) \<le> count"
  shows "distinct res \<and> int (length res) = count"
proof -
  define inv :: "(world \<Rightarrow> string \<times> world) \<Rightarrow> int \<Rightarrow> string list \<Rightarrow> world
      \<Rightarrow> string list \<times> world \<Rightarrow> bool"
    where "inv = (\<lambda>generate count members w y.
      distinct members \<longrightarrow> int (length members) \<le> count
        \<longrightarrow> distinct (fst y) \<and> int (length (fst y)) = count)"
  have "inv generate count members w (res, w')"
  proof (rule fill.raw_induct[where P = inv, OF _ assms(1)])
    fix fill' generate count members w y
    assume IH: "\<And>generate count members w y.
      fill' generate count members w = Some y \<Longrightarrow> inv generate count members w y"
    assume body: "(if int (length members) < count
      then case generate w of (x, w') \<Rightarrow> fill' generate count (set_add members x) w'
      else Some (members, w)) = Some y"
    show "inv generate count members w y"
    proof (cases "int (length members) < count")
      case True
      obtain x w1 where g: "generate w = (x, w1)" by (cases "generate w")
      from body True g have "fill' generate count (set_add members x) w1 = Some y" by simp
      then have step: "inv generate count (set_add members x) w1 y" by (rule IH)
      have le: "int (length (set_add members x)) \<le> count"
        using True set_add_length[of members x] by linarith
      show ?thesis unfolding inv_def
      proof (intro impI)
        assume "distinct members"
        then have "distinct (set_add members x)" by (rule set_add_distinct)
        with step le show "distinct (fst y) \<and> int (length (fst y)) = count"
          by (simp add: inv_def)
      qed
    next
      case False
      with body have "y = (members, w)" by simp
      then show ?thesis using False by (auto simp: inv_def)
    qed
  qed
  then show ?thesis using assms(2,3) by (simp add: inv_def)
qed

lemma fill_done: "count \<le> int (length members) \<Longrightarrow> fill generate count members w = Some (members, w)"
  by (subst fill.simps) simp

text \<open>
  The loop need not be left: when the platform randomness keeps returning the same
  number, the set never gets its second member.
\<close>

lemma pin_of_zeros: "fst (generatePIN None (\<lambda>i. 0)) = ''P100000000A''"
  by code_simp

lemma generatePIN_zeros: "generatePIN None (\<lambda>i. 0) = (''P100000000A'', \<lambda>i. 0)"
proof -
  have "snd (generatePIN None (\<lambda>i. 0)) = (\<lambda>i. 0)"
    by (simp add: generatePIN_def random_of_def)
  with pin_of_zeros show ?thesis by (metis prod.collapse)
qed

lemma generatePINs_never_returns: "generatePINs 2 True (\<lambda>i. 0) = None"
proof -
  define stuck :: "(world \<Rightarrow> string \<times> world) \<Rightarrow> int \<Rightarrow> string list \<Rightarrow> world
      \<Rightarrow> string list \<times> world \<Rightarrow> bool"
    where "stuck = (\<lambda>generate count members w y.
      \<not> (generate = generatePIN None \<and> count = 2 \<and> w = (\<lambda>i. 0)
           \<and> (members = [] \<or> members = [''P100000000A''])))"
  have key: "stuck generate count members w y"
    if "fill generate count members w = Some y" for generate count members w y
  proof (rule fill.raw_induct[where P = stuck, OF _ that])
    fix fill' generate count members w y
    assume IH: "\<And>generate count members w y.
      fill' generate count members w = Some y \<Longrightarrow> stuck generate count members w y"
    assume body: "(if int (length members) < count
      then case generate w of (x, w') \<Rightarrow> fill' generate count (set_add members x) w'
      else Some (members, w)) = Some y"
    show "stuck generate count members w y"
      unfolding stuck_def
    proof
      assume pre: "generate = generatePIN None \<and> count = 2 \<and> w = (\<lambda>i. 0)
           \<and> (members = [] \<or> members = [''P100000000A''])"
      then have "int (length members) < count" by auto
      with body pre have "fill' (generatePIN None) 2 (set_add members ''P100000000A'') (\<lambda>i. 0) = Some y"
        by (simp add: generatePIN_zeros)
      moreover have "set_add members ''P100000000A'' = [''P100000000A'']"
        using pre by (auto simp: set_add_def)
      ultimately have "fill' (generatePIN None) 2 [''P100000000A''] (\<lambda>i. 0) = Some y" by simp
      from IH[OF this] show False by (simp add: stuck_def)
    qed
  qed
  have "\<forall>y. fill (generatePIN None) 2 [] (\<lambda>i. 0) \<noteq> Some y"
  proof (intro allI notI)
    fix y
    assume "fill (generatePIN None) 2 [] (\<lambda>i. 0) = Some y"
    from key[OF this] show False by (simp add: stuck_def)
  qed
  then have "fill (generatePIN None) 2 [] (\<lambda>i. 0) = None"
    by (simp only: not_Some_eq)
  then show ?thesis by (simp add: generatePINs_def)
qed

lemma two_equal_pins:
  "map_option fst (generatePINs 2 False (\<lambda>i. 0)) = Some [''P100000000A'', ''P100000000A'']"
  by code_simp

lemma two_equal_tccs:
  "map_option fst (generateTCCs 2 False (\<lambda>i. 0)) = Some [''TCC100000'', ''TCC100000'']"
  by code_simp

lemma two_equal_eslips:
  "map_option fst (generateEslips 2 False (\<lambda>i. 0)) = Some [''ESLIP100000000'', ''ESLIP100000000'']"
  by code_simp

lemma two_unique_pins:
  "map_option fst (generatePINs 2 True (\<lambda>i. of_nat i / 4)) = Some [''P100000000G'', ''P550000000T'']"
  by code_simp

text \<open>
  C4. For every \<open>n \<ge> 0\<close>: whenever \<open>generatePINs n True\<close> returns, its result has
  length \<open>n\<close> and pairwise distinct elements; \<open>generatePINs n False\<close> returns, and its
  result has length \<open>n\<close>; and duplicates are possible there (a platform randomness that
  repeats itself gives two equal strings). The same for \<open>generateTCCs\<close> and
  \<open>generateEslips\<close>.
\<close>

theorem bulk_generators_length_distinct:
  assumes "0 \<le> n"
  shows "(\<forall>res w'. generatePINs n True w = Some (res, w') \<longrightarrow> int (length res) = n \<and> distinct res)
    \<and> (\<forall>res w'. generateTCCs n True w = Some (res, w') \<longrightarrow> int (length res) = n \<and> distinct res)
    \<and> (\<forall>res w'. generateEslips n True w = Some (res, w') \<longrightarrow> int (length res) = n \<and> distinct res)
    \<and> (\<exists>res w'. generatePINs n False w = Some (res, w') \<and> int (length res) = n)
    \<and> (\<exists>res w'. generateTCCs n False w = Some (res, w') \<and> int (length res) = n)
    \<and> (\<exists>res w'. generateEslips n False w = Some (res, w') \<and> int (length res) = n)
    \<and> (\<exists>v res w'. generatePINs 2 False v = Some (res, w') \<and> \<not> distinct res)
    \<and> (\<exists>v res w'. generateTCCs 2 False v = Some (res, w') \<and> \<not> distinct res)
    \<and> (\<exists>v res w'. generateEslips 2 False v = Some (res, w') \<and> \<not> distinct res)"
proof -
  have unique: "int (length res) = n \<and> distinct res"
    if "fill generate n [] w = Some (res, w')" for generate res w'
    using fill_result[OF that] assms by simp
  have plain: "\<exists>res w'. Some (array_from (nat n) generate w) = Some (res, w') \<and> int (length res) = n"
    for generate :: "world \<Rightarrow> string \<times> world"
    using array_from_length[of "nat n" generate w] assms
    by (cases "array_from (nat n) generate w") auto
  have dup: "\<exists>v res w'. bulk 2 False v = Some (res, w') \<and> \<not> distinct res"
    if "map_option fst (bulk 2 False (\<lambda>i. 0)) = Some [x, x]"
    for bulk :: "int \<Rightarrow> bool \<Rightarrow> world \<Rightarrow> (string list \<times> world) option" and x
  proof -
    from that obtain w' where "bulk 2 False (\<lambda>i. 0) = Some ([x, x], w')" by auto
    moreover have "\<not> distinct [x, x]" by simp
    ultimately show ?thesis by blast
  qed
  show ?thesis
    using unique plain dup[of generatePINs, OF two_equal_pins]
      dup[of generateTCCs, OF two_equal_tccs] dup[of generateEslips, OF two_equal_eslips]
    by (simp add: generatePINs_def generateTCCs_def generateEslips_def)
qed

theorem bulk_generators_length_distinct_witness:
  "(0::int) \<le> 2
   \<and> (\<exists>res w'. generatePINs 2 True (\<lambda>i. of_nat i / 4) = Some (res, w')
         \<and> int (length res) = 2 \<and> distinct res)
   \<and> (\<exists>res w'. generatePINs 2 False (\<lambda>i. of_nat i / 4) = Some (res, w') \<and> int (length res) = 2)"
proof -
  have h: "(0::int) \<le> 2" by simp
  from two_unique_pins obtain res w' where
    r: "generatePINs 2 True (\<lambda>i. of_nat i / 4) = Some (res, w')" by auto
  from bulk_generators_length_distinct[OF h, of "\<lambda>i. of_nat i / 4"] r
  have "int (length res) = 2 \<and> distinct res" by blast
  with r have "\<exists>res w'. generatePINs 2 True (\<lambda>i. of_nat i / 4) = Some (res, w')
         \<and> int (length res) = 2 \<and> distinct res" by blast
  moreover from bulk_generators_length_distinct[OF h, of "\<lambda>i. of_nat i / 4"]
  have "\<exists>res w'. generatePINs 2 False (\<lambda>i. of_nat i / 4) = Some (res, w') \<and> int (length res) = 2"
    by blast
  ultimately show ?thesis using h by blast
qed

text \<open>
  C5. For every \<open>count \<le> 0\<close> and both values of the flag, the three bulk generators
  return the empty sequence (and read no randomness); with the flag set, the loop is left
  before its first iteration.
\<close>

theorem bulk_generators_nonpositive_count:
  assumes "count \<le> 0"
  shows "generatePINs count unique w = Some ([], w)
    \<and> generateTCCs count unique w = Some ([], w)
    \<and> generateEslips count unique w = Some ([], w)
    \<and> fill generate count [] w = Some ([], w)"
  using assms by (simp add: generatePINs_def generateTCCs_def generateEslips_def fill_done)

theorem bulk_generators_nonpositive_count_witness:
  "(- 3::int) \<le> 0
   \<and> generatePINs (- 3) True (\<lambda>i. 1 / 2) = Some ([], \<lambda>i. 1 / 2)
   \<and> generatePINs (- 3) False (\<lambda>i. 1 / 2) = Some ([], \<lambda>i. 1 / 2)
   \<and> generateTCCs 0 True (\<lambda>i. 1 / 2) = Some ([], \<lambda>i. 1 / 2)
   \<and> generateEslips 0 False (\<lambda>i. 1 / 2) = Some ([], \<lambda>i. 1 / 2)"
proof -
  have a: "(- 3::int) \<le> 0" and b: "(0::int) \<le> 0" by simp_all
  show ?thesis
    using a bulk_generators_nonpositive_count[OF a, of True "\<lambda>i. 1 / 2"]
      bulk_generators_nonpositive_count[OF a, of False "\<lambda>i. 1 / 2"]
      bulk_generators_nonpositive_count[OF b, of True "\<lambda>i. 1 / 2"]
      bulk_generators_nonpositive_count[OF b, of False "\<lambda>i. 1 / 2"]
    by simp
qed

section \<open>Tax periods: the month\<close>








section \<open>Amounts: range and rounding\<close>









section \<open>Dates: the window of width zero\<close>




end
